theory Spec2Isabelle
  imports Main "HOL-Library.Word" "HOL-Library.Sublist"
begin

section \<open>The S3 blob store of maddy (internal/storage/blob/s3/s3.go)\<close>

text \<open>
  The file under verification implements three operations on a remote object store:
  \<open>Create\<close> (with the write handle \<open>s3blob\<close> and its methods \<open>Write\<close>, \<open>Sync\<close>,
  \<open>Close\<close>), \<open>Open\<close> and \<open>Delete\<close>. The object store client (minio) and Go's \<open>io.Pipe\<close>
  are libraries outside the file; they are modelled here by the behaviour their
  documentation gives them, with every choice the outside world makes (a failure of the
  service, the names the client refuses, the size of a read buffer, the order in which
  the two goroutines run) left open as an input of the model.
\<close>

subsection \<open>Values\<close>

type_synonym byte = "8 word"

text \<open>
  Errors of the object store client: an \<open>ErrorResponse\<close> carries the HTTP status code of
  the service's answer, any other failure (network, context) does not.
\<close>

datatype backend_err =
    ErrorResponse nat string
  | TransportErr string

text \<open>
  Go \<open>error\<close> values that occur in the file: the sentinels \<open>io.EOF\<close>, \<open>io.ErrClosedPipe\<close>
  and \<open>module.ErrNoSuchBlob\<close>, \<open>fmt.Errorf\<close> without and with a wrapped error (\<open>%w\<close>), and
  the errors of the client.
\<close>

datatype err =
    EOF
  | ErrClosedPipe
  | ErrNoSuchBlob
  | Errorf string
  | ErrorfW string err
  | Backend backend_err

text \<open>\<open>minio.ToErrorResponse(err).StatusCode\<close>: the zero value unless the error is an \<open>ErrorResponse\<close>.\<close>

fun StatusCode :: "backend_err \<Rightarrow> nat" where
  "StatusCode (ErrorResponse c m) = c"
| "StatusCode (TransportErr m) = 0"

definition StatusNotFound :: nat where
  "StatusNotFound = 404"

definition modName :: string where
  "modName = ''storage.blob.s3''"

record Store =
  instName :: string
  endpoint :: string
  bucketName :: string
  objectPrefix :: string

subsection \<open>The object store and the logger\<close>

text \<open>
  The world outside the process: the objects held by the service, addressed by bucket and
  object name; the answers the service will give to the coming \<open>RemoveObject\<close> calls, in
  order (\<open>None\<close> is success, an exhausted list is success); the error with which the
  client refuses a bucket and object name before any request is made (\<open>None\<close> when it
  accepts them); the failure the service answers the request for an object with, if any;
  the removal requests received so far; and the lines written to the logger.
\<close>

record world =
  objects :: "string \<times> string \<Rightarrow> byte list option"
  rm_faults :: "backend_err option list"
  name_check :: "string \<times> string \<Rightarrow> backend_err option"
  get_fault :: "backend_err option"
  rm_calls :: "(string \<times> string) list"
  log_out :: "(string \<times> err \<times> string) list"

definition RemoveObject :: "world \<Rightarrow> string \<Rightarrow> string \<Rightarrow> err option \<times> world" where
  "RemoveObject w bucket name =
     (let w1 = w\<lparr>rm_calls := rm_calls w @ [(bucket, name)]\<rparr> in
      case rm_faults w of
        [] \<Rightarrow> (None, w1\<lparr>objects := (objects w)((bucket, name) := None)\<rparr>)
      | None # fs \<Rightarrow> (None, w1\<lparr>objects := (objects w)((bucket, name) := None), rm_faults := fs\<rparr>)
      | Some e # fs \<Rightarrow> (Some (Backend e), w1\<lparr>rm_faults := fs\<rparr>))"

text \<open>
  \<open>minio.Object\<close>, the reader \<open>GetObject\<close> returns, by what reading it yields: the
  error of its first \<open>Read\<close>, or the bytes of the object.
\<close>

datatype Object = Object "backend_err + byte list"

text \<open>
  \<open>GetObject\<close> is lazy: the call itself only checks the two names and returns a reader
  with a \<open>nil\<close> error; the request to the service is made by the first \<open>Read\<close> of that
  reader, and it is there that a failure of the service or the answer 404 for a missing
  object arrives.
\<close>

definition GetObject :: "world \<Rightarrow> string \<Rightarrow> string \<Rightarrow> backend_err + Object" where
  "GetObject w bucket name =
     (case name_check w (bucket, name) of
        Some e \<Rightarrow> Inl e
      | None \<Rightarrow>
          Inr (Object
            (case get_fault w of
               Some e \<Rightarrow> Inl e
             | None \<Rightarrow>
                 (case objects w (bucket, name) of
                    None \<Rightarrow> Inl (ErrorResponse 404 ''The specified key does not exist.'')
                  | Some bs \<Rightarrow> Inr bs))))"

definition log_Error :: "string \<Rightarrow> err \<Rightarrow> string \<Rightarrow> world \<Rightarrow> world" where
  "log_Error msg e field w = w\<lparr>log_out := log_out w @ [(msg, e, field)]\<rparr>"

subsection \<open>Open\<close>

text \<open>\<open>Store.Open\<close> (lines 132-142).\<close>

definition Open :: "Store \<Rightarrow> string \<Rightarrow> world \<Rightarrow> err + Object" where
  "Open s key w =
     (case GetObject w (bucketName s) (objectPrefix s @ key) of
        Inl e \<Rightarrow>
          if StatusCode e = StatusNotFound then Inl ErrNoSuchBlob
          else Inl (Backend e)
      | Inr obj \<Rightarrow> Inr obj)"

subsection \<open>Delete\<close>

text \<open>
  \<open>Store.Delete\<close> (lines 144-153): the loop over the keys, with the variable \<open>lastErr\<close>
  assigned by every iteration.
\<close>

fun Delete_loop :: "Store \<Rightarrow> string list \<Rightarrow> err option \<Rightarrow> world \<Rightarrow> err option \<times> world" where
  "Delete_loop s [] lastErr w = (lastErr, w)"
| "Delete_loop s (k # ks) lastErr w =
     (case RemoveObject w (bucketName s) (objectPrefix s @ k) of
        (None, w1) \<Rightarrow> Delete_loop s ks None w1
      | (Some e, w1) \<Rightarrow>
          Delete_loop s ks (Some e) (log_Error ''failed to delete object'' e (objectPrefix s @ k) w1))"

definition Delete :: "Store \<Rightarrow> string list \<Rightarrow> world \<Rightarrow> err option \<times> world" where
  "Delete s keys w = Delete_loop s keys None w"

subsection \<open>io.Pipe\<close>

text \<open>
  Go's synchronous in-memory pipe, as far as the file uses it. Each side records the
  error it was closed with; an error that is already recorded is never overwritten
  (\<open>onceError.Store\<close>), and the pipe is done as soon as either side is closed. The pipe
  has no buffer: bytes pass from the slice of a blocked \<open>Write\<close> straight into the
  buffer of a \<open>Read\<close>.
\<close>

record pipe =
  werr :: "err option"
  rerr :: "err option"

definition pipe_done :: "pipe \<Rightarrow> bool" where
  "pipe_done p \<longleftrightarrow> werr p \<noteq> None \<or> rerr p \<noteq> None"

definition store_once :: "err option \<Rightarrow> err \<Rightarrow> err option" where
  "store_once cur e = (case cur of None \<Rightarrow> Some e | Some x \<Rightarrow> Some x)"

definition closeWrite :: "err option \<Rightarrow> pipe \<Rightarrow> pipe" where
  "closeWrite e p = p\<lparr>werr := store_once (werr p) (case e of None \<Rightarrow> EOF | Some x \<Rightarrow> x)\<rparr>"

definition closeRead :: "err option \<Rightarrow> pipe \<Rightarrow> pipe" where
  "closeRead e p = p\<lparr>rerr := store_once (rerr p) (case e of None \<Rightarrow> ErrClosedPipe | Some x \<Rightarrow> x)\<rparr>"

definition writeCloseError :: "pipe \<Rightarrow> err" where
  "writeCloseError p =
     (case werr p of
        None \<Rightarrow> (case rerr p of Some r \<Rightarrow> r | None \<Rightarrow> ErrClosedPipe)
      | Some w \<Rightarrow> ErrClosedPipe)"

definition readCloseError :: "pipe \<Rightarrow> err" where
  "readCloseError p =
     (case rerr p of
        None \<Rightarrow> (case werr p of Some w \<Rightarrow> w | None \<Rightarrow> ErrClosedPipe)
      | Some r \<Rightarrow> ErrClosedPipe)"

subsection \<open>The write handle and its upload goroutine\<close>

text \<open>
  Where the calling goroutine stands: between two calls on the handle, inside
  \<open>pw.Write\<close> (with the rest of the slice, the count returned so far and the \<open>once\<close> flag
  of its loop), inside \<open>Sync\<close> at the receive from \<open>errCh\<close>, or stopped by the panic of
  \<open>Sync\<close>.
\<close>

datatype caller_pc =
    Idle
  | InWrite "byte list" nat bool
  | InSync
  | Panicked string

text \<open>What the calls on the handle have returned, in order.\<close>

datatype ret =
    WriteRet nat "err option"
  | SyncRet "err option"
  | CloseRet "err option"

text \<open>
  Where the goroutine started by \<open>Create\<close> stands: inside \<open>PutObject\<close> (line 119), at
  the test of its result (line 120), at the send (line 123), or finished.
\<close>

datatype task_pc = InPut | PutReturned | Sending | Finished

text \<open>
  The state of one write handle: the fields of \<open>s3blob\<close> (\<open>pw\<close> and the read end share
  \<open>pipe\<close>; \<open>errCh\<close> is the queue of the channel, \<open>errCh_cap\<close> its capacity), the
  goroutine with the variables it captured and its local \<open>err\<close>, the bytes \<open>PutObject\<close>
  has read from the pipe, the caller, and the world.
\<close>

record state =
  didSync :: bool
  pipe :: pipe
  errCh :: "err option list"
  errCh_cap :: nat
  task :: task_pc
  put_bucket :: string
  put_name :: string
  put_read :: "byte list"
  put_err :: "err option"
  caller :: caller_pc
  rets :: "ret list"
  outside :: world

text \<open>
  \<open>Store.Create\<close> (lines 114-130): a fresh pipe, a channel of capacity one, the goroutine
  started on \<open>PutObject\<close> for the prefixed key; the error returned is always \<open>nil\<close>.
\<close>

definition Create :: "Store \<Rightarrow> string \<Rightarrow> world \<Rightarrow> state \<times> err option" where
  "Create s key w =
     (\<lparr>didSync = False,
       pipe = \<lparr>werr = None, rerr = None\<rparr>,
       errCh = [],
       errCh_cap = 1,
       task = InPut,
       put_bucket = bucketName s,
       put_name = objectPrefix s @ key,
       put_read = [],
       put_err = None,
       caller = Idle,
       rets = [],
       outside = w\<rparr>, None)"

text \<open>
  What can happen next, one atomic action each. The caller calls a method of the handle
  (\<open>CallWrite\<close>, \<open>CallSync\<close>, \<open>CallClose\<close>), a blocked \<open>Write\<close> hands bytes to a read of
  \<open>PutObject\<close> with a buffer of the given size (\<open>Transfer\<close>) or returns (\<open>WriteReturn\<close>),
  \<open>Sync\<close> receives from the channel (\<open>SyncRecv\<close>); \<open>PutObject\<close> fails on its own
  (\<open>PutFail\<close>) or finds the pipe closed (\<open>PutEnd\<close>, with the outcome of completing the
  upload should the close be a clean one), and the goroutine runs lines 120-122
  (\<open>TaskCloseRead\<close>) and line 123 (\<open>TaskSend\<close>).
\<close>

datatype event =
    CallWrite "byte list"
  | CallSync
  | CallClose
  | Transfer nat
  | WriteReturn
  | SyncRecv
  | PutFail backend_err
  | PutEnd "backend_err option"
  | TaskCloseRead
  | TaskSend

text \<open>\<open>s3blob.Write\<close> (lines 103-105), entry of \<open>pw.Write\<close>: a closed pipe is refused at once.\<close>

definition Write_call :: "byte list \<Rightarrow> state \<Rightarrow> state" where
  "Write_call p st =
     (if pipe_done (pipe st)
      then st\<lparr>rets := rets st @ [WriteRet 0 (Some (writeCloseError (pipe st)))]\<rparr>
      else st\<lparr>caller := InWrite p 0 True\<rparr>)"

text \<open>One round of the loop of \<open>pw.Write\<close>: a read with a buffer of \<open>m\<close> bytes takes what fits.\<close>

definition Write_transfer :: "nat \<Rightarrow> byte list \<Rightarrow> nat \<Rightarrow> state \<Rightarrow> state" where
  "Write_transfer m b n st =
     (let nr = min m (length b) in
      st\<lparr>put_read := put_read st @ take nr b,
         caller := InWrite (drop nr b) (n + nr) False\<rparr>)"

text \<open>
  Leaving \<open>pw.Write\<close>: with \<open>nil\<close> when the loop is over, with the close error when the
  pipe is done; otherwise the call stays blocked.
\<close>

definition Write_return :: "byte list \<Rightarrow> nat \<Rightarrow> bool \<Rightarrow> state \<Rightarrow> state option" where
  "Write_return b n once st =
     (if \<not> (once \<or> b \<noteq> [])
      then Some (st\<lparr>rets := rets st @ [WriteRet n None], caller := Idle\<rparr>)
      else if pipe_done (pipe st)
      then Some (st\<lparr>rets := rets st @ [WriteRet n (Some (writeCloseError (pipe st)))], caller := Idle\<rparr>)
      else None)"

text \<open>\<open>s3blob.Sync\<close> (lines 89-101) up to the receive, and the receive itself.\<close>

definition Sync_call :: "state \<Rightarrow> state" where
  "Sync_call st =
     (if didSync st
      then st\<lparr>caller := Panicked ''storage.blob.s3: Sync called twice for a blob object''\<rparr>
      else st\<lparr>pipe := closeWrite None (pipe st), didSync := True, caller := InSync\<rparr>)"

definition Sync_recv :: "state \<Rightarrow> state option" where
  "Sync_recv st =
     (case errCh st of
        [] \<Rightarrow> None
      | v # q \<Rightarrow> Some (st\<lparr>errCh := q, rets := rets st @ [SyncRet v], caller := Idle\<rparr>))"

text \<open>\<open>s3blob.Close\<close> (lines 107-112).\<close>

definition Close_call :: "state \<Rightarrow> state" where
  "Close_call st =
     (let st1 = (if \<not> didSync st
                 then st\<lparr>pipe := closeWrite (Some (Errorf ''storage.blob.s3: blob closed without Sync'')) (pipe st)\<rparr>
                 else st)
      in st1\<lparr>rets := rets st1 @ [CloseRet None]\<rparr>)"

text \<open>
  \<open>PutObject\<close> with unknown length (\<open>-1\<close>): on names the client refuses the call
  returns the error of the refusal and never succeeds (the model lets it fail at any
  moment, by \<open>PutFail\<close>, and at the latest here); otherwise it reads the pipe to its
  end. A clean end completes the upload, which stores the bytes read under the object
  name or fails; an end with an error makes the call return that error.
\<close>

definition Put_end :: "backend_err option \<Rightarrow> state \<Rightarrow> state" where
  "Put_end fault st =
     (case name_check (outside st) (put_bucket st, put_name st) of
        Some e \<Rightarrow> st\<lparr>put_err := Some (Backend e), task := PutReturned\<rparr>
      | None \<Rightarrow>
          (let rErr = readCloseError (pipe st) in
           if rErr = EOF
           then (case fault of
                   None \<Rightarrow>
                     st\<lparr>outside := (outside st)\<lparr>objects :=
                           (objects (outside st))((put_bucket st, put_name st) \<mapsto> put_read st)\<rparr>,
                        put_err := None, task := PutReturned\<rparr>
                 | Some e \<Rightarrow> st\<lparr>put_err := Some (Backend e), task := PutReturned\<rparr>)
           else st\<lparr>put_err := Some rErr, task := PutReturned\<rparr>))"

text \<open>Lines 120-122 and line 123 of the goroutine.\<close>

definition Task_closeRead :: "state \<Rightarrow> state" where
  "Task_closeRead st =
     (case put_err st of
        None \<Rightarrow> st\<lparr>task := Sending\<rparr>
      | Some e \<Rightarrow> st\<lparr>pipe := closeRead (Some (ErrorfW ''s3 PutObject: '' e)) (pipe st), task := Sending\<rparr>)"

definition Task_send :: "state \<Rightarrow> state option" where
  "Task_send st =
     (if length (errCh st) < errCh_cap st
      then Some (st\<lparr>errCh := errCh st @ [put_err st], task := Finished\<rparr>)
      else None)"

text \<open>The step function: \<open>None\<close> when the action cannot happen in the state.\<close>

fun step :: "event \<Rightarrow> state \<Rightarrow> state option" where
  "step (CallWrite p) st = (if caller st = Idle then Some (Write_call p st) else None)"
| "step CallSync st = (if caller st = Idle then Some (Sync_call st) else None)"
| "step CallClose st = (if caller st = Idle then Some (Close_call st) else None)"
| "step (Transfer m) st =
     (case caller st of
        InWrite b n once \<Rightarrow>
          if (once \<or> b \<noteq> []) \<and> task st = InPut \<and> \<not> pipe_done (pipe st)
          then Some (Write_transfer m b n st) else None
      | _ \<Rightarrow> None)"
| "step WriteReturn st =
     (case caller st of InWrite b n once \<Rightarrow> Write_return b n once st | _ \<Rightarrow> None)"
| "step SyncRecv st = (if caller st = InSync then Sync_recv st else None)"
| "step (PutFail e) st =
     (if task st = InPut then Some (st\<lparr>put_err := Some (Backend e), task := PutReturned\<rparr>) else None)"
| "step (PutEnd fault) st =
     (if task st = InPut \<and> pipe_done (pipe st) then Some (Put_end fault st) else None)"
| "step TaskCloseRead st = (if task st = PutReturned then Some (Task_closeRead st) else None)"
| "step TaskSend st = (if task st = Sending then Task_send st else None)"

fun run :: "event list \<Rightarrow> state \<Rightarrow> state option" where
  "run [] st = Some st"
| "run (e # es) st = (case step e st of None \<Rightarrow> None | Some st' \<Rightarrow> run es st')"

text \<open>The calls on the handle among the actions of a run, and the slices passed to \<open>Write\<close>.\<close>

fun is_call :: "event \<Rightarrow> bool" where
  "is_call (CallWrite p) = True"
| "is_call CallSync = True"
| "is_call CallClose = True"
| "is_call _ = False"

definition calls :: "event list \<Rightarrow> event list" where
  "calls es = filter is_call es"

subsection \<open>Observations on runs\<close>

text \<open>The values \<open>Sync\<close> has returned, among all returns.\<close>

fun sync_rets :: "ret list \<Rightarrow> err option list" where
  "sync_rets [] = []"
| "sync_rets (SyncRet v # rs) = v # sync_rets rs"
| "sync_rets (r # rs) = sync_rets rs"

text \<open>
  The bytes passed to \<open>Write\<close> by the calls of a run, in order; the number of bytes the
  calls of \<open>Write\<close> have reported as written, the call in progress included; and the rest
  of the slice of the call in progress.
\<close>

fun write_arg :: "event \<Rightarrow> byte list" where
  "write_arg (CallWrite p) = p"
| "write_arg _ = []"

definition offered :: "event list \<Rightarrow> byte list" where
  "offered es = concat (map write_arg es)"

fun ret_count :: "ret \<Rightarrow> nat" where
  "ret_count (WriteRet n e) = n"
| "ret_count _ = 0"

definition acked :: "state \<Rightarrow> nat" where
  "acked st =
     sum_list (map ret_count (rets st)) +
     (case caller st of InWrite b n once \<Rightarrow> n | _ \<Rightarrow> 0)"

definition pending :: "state \<Rightarrow> byte list" where
  "pending st = (case caller st of InWrite b n once \<Rightarrow> b | _ \<Rightarrow> [])"

fun write_failed :: "ret \<Rightarrow> bool" where
  "write_failed (WriteRet n (Some e)) = True"
| "write_failed _ = False"

text \<open>The error \<open>Close\<close> closes the pipe with, and the state of a goroutine whose upload has failed.\<close>

definition closeErr :: err where
  "closeErr = Errorf ''storage.blob.s3: blob closed without Sync''"

definition put_failed :: "state \<Rightarrow> bool" where
  "put_failed st \<longleftrightarrow> task st \<noteq> InPut \<and> put_err st \<noteq> None"

subsection \<open>Invariants of the handle\<close>

text \<open>
  The channel: its capacity is one, and what has been received from it together with
  what it holds is the one value the goroutine has sent, once it has finished, and
  nothing before.
\<close>

definition chan_inv :: "state \<Rightarrow> bool" where
  "chan_inv st \<longleftrightarrow>
     errCh_cap st = 1 \<and>
     sync_rets (rets st) @ errCh st = (if task st = Finished then [put_err st] else [])"

text \<open>
  The pipe: the read end is closed exactly by line 121, with the wrapped error; the
  write end is closed by \<open>Sync\<close> (cleanly) or by \<open>Close\<close>, and \<open>didSync\<close> says which.
\<close>

definition pipe_inv :: "state \<Rightarrow> bool" where
  "pipe_inv st \<longleftrightarrow>
     rerr (pipe st) =
       (if task st = Sending \<or> task st = Finished
        then map_option (ErrorfW ''s3 PutObject: '') (put_err st) else None) \<and>
     (werr (pipe st) = None \<or> werr (pipe st) = Some EOF \<or> werr (pipe st) = Some closeErr) \<and>
     (werr (pipe st) = Some EOF \<longrightarrow> didSync st) \<and>
     (didSync st \<longrightarrow> werr (pipe st) \<noteq> None) \<and>
     (caller st = InSync \<longrightarrow> didSync st) \<and>
     (\<forall>m. caller st = Panicked m \<longrightarrow> didSync st)"

text \<open>
  The upload: it addresses the prefixed key in the bucket of the store; the world is
  untouched until it succeeds, which takes names the client accepts and a clean close,
  and stores the bytes read; a failure is an error of the client or the error \<open>Close\<close>
  put into the pipe.
\<close>

definition put_inv :: "Store \<Rightarrow> string \<Rightarrow> world \<Rightarrow> state \<Rightarrow> bool" where
  "put_inv s key w st \<longleftrightarrow>
     put_bucket st = bucketName s \<and> put_name st = objectPrefix s @ key \<and>
     (task st = InPut \<longrightarrow> outside st = w) \<and>
     (task st \<noteq> InPut \<longrightarrow>
        (case put_err st of
           None \<Rightarrow> werr (pipe st) = Some EOF \<and>
                   name_check w (bucketName s, objectPrefix s @ key) = None \<and>
                   outside st = w\<lparr>objects := (objects w)((bucketName s, objectPrefix s @ key) \<mapsto> put_read st)\<rparr>
         | Some e \<Rightarrow> outside st = w \<and>
                   ((\<exists>be. e = Backend be) \<or> (e = closeErr \<and> werr (pipe st) = Some closeErr))))"

definition handle_inv :: "Store \<Rightarrow> string \<Rightarrow> world \<Rightarrow> state \<Rightarrow> bool" where
  "handle_inv s key w st \<longleftrightarrow> chan_inv st \<and> pipe_inv st \<and> put_inv s key w st"

text \<open>
  The bytes: the reports of \<open>Write\<close> add up to what \<open>PutObject\<close> has read; what it
  has read is a prefix of what was offered, and while the pipe is open the rest is the
  slice of the call in progress; as long as no \<open>Write\<close> has returned an error, nothing
  offered is missing.
\<close>

definition count_inv :: "state \<Rightarrow> bool" where
  "count_inv st \<longleftrightarrow> length (put_read st) = acked st"

definition prefix_inv :: "byte list \<Rightarrow> state \<Rightarrow> bool" where
  "prefix_inv off st \<longleftrightarrow>
     prefix (put_read st) off \<and> (\<not> pipe_done (pipe st) \<longrightarrow> off = put_read st @ pending st)"

definition whole_inv :: "byte list \<Rightarrow> state \<Rightarrow> bool" where
  "whole_inv off st \<longleftrightarrow>
     ((\<forall>r \<in> set (rets st). \<not> write_failed r) \<longrightarrow> put_read st @ pending st = off)"

text \<open>
  Before \<open>Sync\<close> or \<open>Close\<close> is called the write end is open, and either the upload has
  read all that was offered but the slice of the call in progress, or it has failed.
\<close>

definition presync_inv :: "byte list \<Rightarrow> state \<Rightarrow> bool" where
  "presync_inv off st \<longleftrightarrow>
     werr (pipe st) = None \<and> (put_read st @ pending st = off \<or> put_failed st)"

text \<open>A way out of a blocked \<open>Write\<close>: the reads of the upload, or the close of the pipe.\<close>

definition finish_write :: "state \<Rightarrow> event list" where
  "finish_write st =
     (case caller st of
        InWrite b n once \<Rightarrow>
          if \<not> (once \<or> b \<noteq> []) \<or> pipe_done (pipe st) then [WriteReturn]
          else if task st = InPut then [Transfer (max 1 (length b)), WriteReturn]
          else [TaskCloseRead, WriteReturn]
      | _ \<Rightarrow> [])"

text \<open>
  A run in which everything goes well: each slice is written and read in one piece, then
  \<open>Sync\<close> is called, the upload completes and its result is received. A handle is fresh
  while nothing has been closed, sent or failed, on names the client accepts.
\<close>

definition commit_schedule :: "byte list list \<Rightarrow> event list" where
  "commit_schedule chunks =
     concat (map (\<lambda>c. [CallWrite c, Transfer (length c), WriteReturn]) chunks) @
     [CallSync, PutEnd None, TaskCloseRead, TaskSend, SyncRecv]"

definition fresh :: "state \<Rightarrow> bool" where
  "fresh st \<longleftrightarrow>
     caller st = Idle \<and> task st = InPut \<and> \<not> didSync st \<and>
     werr (pipe st) = None \<and> rerr (pipe st) = None \<and> errCh st = [] \<and> errCh_cap st = 1 \<and>
     name_check (outside st) (put_bucket st, put_name st) = None"

subsection \<open>Examples\<close>

definition ex_store :: Store where
  "ex_store = \<lparr>instName = ''local'', endpoint = ''s3.example.org'',
               bucketName = ''mail'', objectPrefix = ''blobs/''\<rparr>"

text \<open>A store, and a world without objects whose client refuses empty object names only.\<close>

definition ex_world :: world where
  "ex_world =
     \<lparr>objects = Map.empty, rm_faults = [],
      name_check = (\<lambda>(bucket, name).
        if name = [] then Some (ErrorResponse 400 ''Object name cannot be empty'') else None),
      get_fault = None, rm_calls = [], log_out = []\<rparr>"

section \<open>Properties\<close>

subsection \<open>Runs and invariants\<close>

lemma run_append:
  "run (es @ fs) st = (case run es st of None \<Rightarrow> None | Some st' \<Rightarrow> run fs st')"
  by (induction es arbitrary: st) (auto split: option.splits)

lemma run_snoc:
  "run (es @ [e]) st = (case run es st of None \<Rightarrow> None | Some st' \<Rightarrow> step e st')"
  by (simp add: run_append split: option.splits)

lemma run_invariant:
  assumes "\<And>e st st'. P st \<Longrightarrow> step e st = Some st' \<Longrightarrow> P st'"
    and "P st0" and "run es st0 = Some st"
  shows "P st"
  using assms(2,3)
proof (induction es arbitrary: st0)
  case Nil
  then show ?case by simp
next
  case (Cons e es)
  then show ?case using assms(1) by (auto split: option.splits)
qed

lemma sync_rets_append: "sync_rets (xs @ ys) = sync_rets xs @ sync_rets ys"
  by (induction xs rule: sync_rets.induct) auto

lemma step_elim [consumes 1, case_names CallWrite CallSync CallClose Transfer WriteDone WriteAbort SyncRecv PutFail PutEnd TaskCloseRead TaskSend]:
  assumes "step e st = Some st'"
  obtains
    p where "e = CallWrite p" "caller st = Idle" "st' = Write_call p st"
  | "e = CallSync" "caller st = Idle" "st' = Sync_call st"
  | "e = CallClose" "caller st = Idle" "st' = Close_call st"
  | m b n once where "e = Transfer m" "caller st = InWrite b n once" "once \<or> b \<noteq> []"
      "task st = InPut" "\<not> pipe_done (pipe st)" "st' = Write_transfer m b n st"
  | n where "e = WriteReturn" "caller st = InWrite [] n False"
      "st' = st\<lparr>rets := rets st @ [WriteRet n None], caller := Idle\<rparr>"
  | b n once where "e = WriteReturn" "caller st = InWrite b n once" "once \<or> b \<noteq> []"
      "pipe_done (pipe st)"
      "st' = st\<lparr>rets := rets st @ [WriteRet n (Some (writeCloseError (pipe st)))], caller := Idle\<rparr>"
  | v q where "e = SyncRecv" "caller st = InSync" "errCh st = v # q"
      "st' = st\<lparr>errCh := q, rets := rets st @ [SyncRet v], caller := Idle\<rparr>"
  | be where "e = PutFail be" "task st = InPut"
      "st' = st\<lparr>put_err := Some (Backend be), task := PutReturned\<rparr>"
  | fault where "e = PutEnd fault" "task st = InPut" "pipe_done (pipe st)" "st' = Put_end fault st"
  | "e = TaskCloseRead" "task st = PutReturned" "st' = Task_closeRead st"
  | "e = TaskSend" "task st = Sending" "length (errCh st) < errCh_cap st"
      "st' = st\<lparr>errCh := errCh st @ [put_err st], task := Finished\<rparr>"
proof (cases e)
  case (CallWrite p)
  with assms that(1) show ?thesis by (simp split: if_splits)
next
  case CallSync
  with assms that(2) show ?thesis by (simp split: if_splits)
next
  case CallClose
  with assms that(3) show ?thesis by (simp split: if_splits)
next
  case (Transfer m)
  with assms that(4) show ?thesis by (simp split: if_splits caller_pc.splits)
next
  case WriteReturn
  with assms that(5,6) show ?thesis
    by (simp add: Write_return_def split: if_splits caller_pc.splits)
next
  case SyncRecv
  with assms that(7) show ?thesis by (simp add: Sync_recv_def split: if_splits list.splits)
next
  case (PutFail be)
  with assms that(8) show ?thesis by (simp split: if_splits)
next
  case (PutEnd fault)
  with assms that(9) show ?thesis by (simp split: if_splits)
next
  case TaskCloseRead
  with assms that(10) show ?thesis by (simp split: if_splits)
next
  case TaskSend
  with assms that(11) show ?thesis by (simp add: Task_send_def split: if_splits)
qed

lemma chan_inv_step:
  assumes "step e st = Some st'"
    and "chan_inv st"
  shows "chan_inv st'"
  using assms(1)
proof (cases rule: step_elim)
  case (CallWrite p)
  with assms(2) show ?thesis
    by (auto simp: chan_inv_def Write_call_def sync_rets_append split: if_splits option.splits)
next
  case CallSync
  with assms(2) show ?thesis
    by (auto simp: chan_inv_def Sync_call_def sync_rets_append split: if_splits option.splits)
next
  case CallClose
  with assms(2) show ?thesis
    by (auto simp: chan_inv_def Close_call_def sync_rets_append split: if_splits option.splits)
next
  case (Transfer m b n once)
  with assms(2) show ?thesis
    by (auto simp: chan_inv_def Write_transfer_def Let_def sync_rets_append split: if_splits option.splits)
next
  case (WriteDone n)
  with assms(2) show ?thesis
    by (auto simp: chan_inv_def  sync_rets_append split: if_splits option.splits)
next
  case (WriteAbort b n once)
  with assms(2) show ?thesis
    by (auto simp: chan_inv_def  sync_rets_append split: if_splits option.splits)
next
  case (SyncRecv v q)
  with assms(2) show ?thesis
    by (auto simp: chan_inv_def  sync_rets_append split: if_splits option.splits)
next
  case (PutFail be)
  with assms(2) show ?thesis
    by (auto simp: chan_inv_def  sync_rets_append split: if_splits option.splits)
next
  case (PutEnd fault)
  with assms(2) show ?thesis
    by (auto simp: chan_inv_def Put_end_def Let_def sync_rets_append split: if_splits option.splits)
next
  case TaskCloseRead
  with assms(2) show ?thesis
    by (auto simp: chan_inv_def Task_closeRead_def sync_rets_append split: if_splits option.splits)
next
  case TaskSend
  with assms(2) show ?thesis
    by (auto simp: chan_inv_def  sync_rets_append split: if_splits option.splits)
qed

lemma pipe_inv_step:
  assumes "step e st = Some st'"
    and "pipe_inv st"
  shows "pipe_inv st'"
  using assms(1)
proof (cases rule: step_elim)
  case (CallWrite p)
  with assms(2) show ?thesis
    by (auto simp: pipe_inv_def Write_call_def closeErr_def closeWrite_def closeRead_def store_once_def split: if_splits option.splits)
next
  case CallSync
  with assms(2) show ?thesis
    by (auto simp: pipe_inv_def Sync_call_def closeErr_def closeWrite_def closeRead_def store_once_def split: if_splits option.splits)
next
  case CallClose
  with assms(2) show ?thesis
    by (auto simp: pipe_inv_def Close_call_def closeErr_def closeWrite_def closeRead_def store_once_def split: if_splits option.splits)
next
  case (Transfer m b n once)
  with assms(2) show ?thesis
    by (auto simp: pipe_inv_def Write_transfer_def Let_def closeErr_def closeWrite_def closeRead_def store_once_def split: if_splits option.splits)
next
  case (WriteDone n)
  with assms(2) show ?thesis
    by (auto simp: pipe_inv_def  closeErr_def closeWrite_def closeRead_def store_once_def split: if_splits option.splits)
next
  case (WriteAbort b n once)
  with assms(2) show ?thesis
    by (auto simp: pipe_inv_def  closeErr_def closeWrite_def closeRead_def store_once_def split: if_splits option.splits)
next
  case (SyncRecv v q)
  with assms(2) show ?thesis
    by (auto simp: pipe_inv_def  closeErr_def closeWrite_def closeRead_def store_once_def split: if_splits option.splits)
next
  case (PutFail be)
  with assms(2) show ?thesis
    by (auto simp: pipe_inv_def  closeErr_def closeWrite_def closeRead_def store_once_def split: if_splits option.splits)
next
  case (PutEnd fault)
  with assms(2) show ?thesis
    by (auto simp: pipe_inv_def Put_end_def Let_def closeErr_def closeWrite_def closeRead_def store_once_def split: if_splits option.splits)
next
  case TaskCloseRead
  with assms(2) show ?thesis
    by (auto simp: pipe_inv_def Task_closeRead_def closeErr_def closeWrite_def closeRead_def store_once_def split: if_splits option.splits)
next
  case TaskSend
  with assms(2) show ?thesis
    by (auto simp: pipe_inv_def  closeErr_def closeWrite_def closeRead_def store_once_def split: if_splits option.splits)
qed

lemma put_inv_step:
  assumes "step e st = Some st'"
    and "pipe_inv st"
    and "put_inv s key w st"
  shows "put_inv s key w st'"
  using assms(1)
proof (cases rule: step_elim)
  case (CallWrite p)
  with assms(2-3) show ?thesis
    by (auto simp: put_inv_def pipe_inv_def Write_call_def closeErr_def closeWrite_def closeRead_def store_once_def readCloseError_def pipe_done_def split: if_splits option.splits)
next
  case CallSync
  with assms(2-3) show ?thesis
    by (auto simp: put_inv_def pipe_inv_def Sync_call_def closeErr_def closeWrite_def closeRead_def store_once_def readCloseError_def pipe_done_def split: if_splits option.splits)
next
  case CallClose
  with assms(2-3) show ?thesis
    by (auto simp: put_inv_def pipe_inv_def Close_call_def closeErr_def closeWrite_def closeRead_def store_once_def readCloseError_def pipe_done_def split: if_splits option.splits)
next
  case (Transfer m b n once)
  with assms(2-3) show ?thesis
    by (auto simp: put_inv_def pipe_inv_def Write_transfer_def Let_def closeErr_def closeWrite_def closeRead_def store_once_def readCloseError_def pipe_done_def split: if_splits option.splits)
next
  case (WriteDone n)
  with assms(2-3) show ?thesis
    by (auto simp: put_inv_def pipe_inv_def  closeErr_def closeWrite_def closeRead_def store_once_def readCloseError_def pipe_done_def split: if_splits option.splits)
next
  case (WriteAbort b n once)
  with assms(2-3) show ?thesis
    by (auto simp: put_inv_def pipe_inv_def  closeErr_def closeWrite_def closeRead_def store_once_def readCloseError_def pipe_done_def split: if_splits option.splits)
next
  case (SyncRecv v q)
  with assms(2-3) show ?thesis
    by (auto simp: put_inv_def pipe_inv_def  closeErr_def closeWrite_def closeRead_def store_once_def readCloseError_def pipe_done_def split: if_splits option.splits)
next
  case (PutFail be)
  with assms(2-3) show ?thesis
    by (auto simp: put_inv_def pipe_inv_def  closeErr_def closeWrite_def closeRead_def store_once_def readCloseError_def pipe_done_def split: if_splits option.splits)
next
  case (PutEnd fault)
  with assms(2-3) show ?thesis
    by (auto simp: put_inv_def pipe_inv_def Put_end_def Let_def closeErr_def closeWrite_def closeRead_def store_once_def readCloseError_def pipe_done_def split: if_splits option.splits)
next
  case TaskCloseRead
  with assms(2-3) show ?thesis
    by (auto simp: put_inv_def pipe_inv_def Task_closeRead_def closeErr_def closeWrite_def closeRead_def store_once_def readCloseError_def pipe_done_def split: if_splits option.splits)
next
  case TaskSend
  with assms(2-3) show ?thesis
    by (auto simp: put_inv_def pipe_inv_def  closeErr_def closeWrite_def closeRead_def store_once_def readCloseError_def pipe_done_def split: if_splits option.splits)
qed

lemma handle_inv_Create: "handle_inv s key w (fst (Create s key w))"
  by (simp add: handle_inv_def chan_inv_def pipe_inv_def put_inv_def Create_def)

lemma handle_inv_step: "handle_inv s key w st \<Longrightarrow> step e st = Some st' \<Longrightarrow> handle_inv s key w st'"
  unfolding handle_inv_def using chan_inv_step pipe_inv_step put_inv_step by blast

lemma handle_inv_run: "handle_inv s key w st0 \<Longrightarrow> run es st0 = Some st \<Longrightarrow> handle_inv s key w st"
  by (rule run_invariant [where P = "handle_inv s key w"]) (auto intro: handle_inv_step)

lemma handle_inv_reach: "run es (fst (Create s key w)) = Some st \<Longrightarrow> handle_inv s key w st"
  using handle_inv_run handle_inv_Create by blast

lemma count_inv_step:
  assumes "step e st = Some st'"
    and "count_inv st"
  shows "count_inv st'"
  using assms(1)
proof (cases rule: step_elim)
  case (CallWrite p)
  with assms(2) show ?thesis
    by (auto simp: count_inv_def acked_def Write_call_def  split: if_splits option.splits)
next
  case CallSync
  with assms(2) show ?thesis
    by (auto simp: count_inv_def acked_def Sync_call_def  split: if_splits option.splits)
next
  case CallClose
  with assms(2) show ?thesis
    by (auto simp: count_inv_def acked_def Close_call_def  split: if_splits option.splits)
next
  case (Transfer m b n once)
  with assms(2) show ?thesis
    by (auto simp: count_inv_def acked_def Write_transfer_def Let_def  split: if_splits option.splits)
next
  case (WriteDone n)
  with assms(2) show ?thesis
    by (auto simp: count_inv_def acked_def   split: if_splits option.splits)
next
  case (WriteAbort b n once)
  with assms(2) show ?thesis
    by (auto simp: count_inv_def acked_def   split: if_splits option.splits)
next
  case (SyncRecv v q)
  with assms(2) show ?thesis
    by (auto simp: count_inv_def acked_def   split: if_splits option.splits)
next
  case (PutFail be)
  with assms(2) show ?thesis
    by (auto simp: count_inv_def acked_def   split: if_splits option.splits)
next
  case (PutEnd fault)
  with assms(2) show ?thesis
    by (auto simp: count_inv_def acked_def Put_end_def Let_def  split: if_splits option.splits)
next
  case TaskCloseRead
  with assms(2) show ?thesis
    by (auto simp: count_inv_def acked_def Task_closeRead_def  split: if_splits option.splits)
next
  case TaskSend
  with assms(2) show ?thesis
    by (auto simp: count_inv_def acked_def   split: if_splits option.splits)
qed

lemma prefix_inv_step:
  assumes "step e st = Some st'"
    and "prefix_inv off st"
  shows "prefix_inv (off @ write_arg e) st'"
  using assms(1)
proof (cases rule: step_elim)
  case (CallWrite p)
  with assms(2) show ?thesis
    by (auto simp: prefix_inv_def pending_def Write_call_def pipe_done_def closeWrite_def closeRead_def store_once_def take_is_prefix split: if_splits option.splits)
next
  case CallSync
  with assms(2) show ?thesis
    by (auto simp: prefix_inv_def pending_def Sync_call_def pipe_done_def closeWrite_def closeRead_def store_once_def take_is_prefix split: if_splits option.splits)
next
  case CallClose
  with assms(2) show ?thesis
    by (auto simp: prefix_inv_def pending_def Close_call_def pipe_done_def closeWrite_def closeRead_def store_once_def take_is_prefix split: if_splits option.splits)
next
  case (Transfer m b n once)
  with assms(2) show ?thesis
    by (auto simp: prefix_inv_def pending_def Write_transfer_def Let_def pipe_done_def closeWrite_def closeRead_def store_once_def take_is_prefix split: if_splits option.splits)
next
  case (WriteDone n)
  with assms(2) show ?thesis
    by (auto simp: prefix_inv_def pending_def  pipe_done_def closeWrite_def closeRead_def store_once_def take_is_prefix split: if_splits option.splits)
next
  case (WriteAbort b n once)
  with assms(2) show ?thesis
    by (auto simp: prefix_inv_def pending_def  pipe_done_def closeWrite_def closeRead_def store_once_def take_is_prefix split: if_splits option.splits)
next
  case (SyncRecv v q)
  with assms(2) show ?thesis
    by (auto simp: prefix_inv_def pending_def  pipe_done_def closeWrite_def closeRead_def store_once_def take_is_prefix split: if_splits option.splits)
next
  case (PutFail be)
  with assms(2) show ?thesis
    by (auto simp: prefix_inv_def pending_def  pipe_done_def closeWrite_def closeRead_def store_once_def take_is_prefix split: if_splits option.splits)
next
  case (PutEnd fault)
  with assms(2) show ?thesis
    by (auto simp: prefix_inv_def pending_def Put_end_def Let_def pipe_done_def closeWrite_def closeRead_def store_once_def take_is_prefix split: if_splits option.splits)
next
  case TaskCloseRead
  with assms(2) show ?thesis
    by (auto simp: prefix_inv_def pending_def Task_closeRead_def pipe_done_def closeWrite_def closeRead_def store_once_def take_is_prefix split: if_splits option.splits)
next
  case TaskSend
  with assms(2) show ?thesis
    by (auto simp: prefix_inv_def pending_def  pipe_done_def closeWrite_def closeRead_def store_once_def take_is_prefix split: if_splits option.splits)
qed

lemma whole_inv_step:
  assumes "step e st = Some st'"
    and "whole_inv off st"
  shows "whole_inv (off @ write_arg e) st'"
  using assms(1)
proof (cases rule: step_elim)
  case (CallWrite p)
  with assms(2) show ?thesis
    by (auto simp: whole_inv_def pending_def Write_call_def  split: if_splits option.splits)
next
  case CallSync
  with assms(2) show ?thesis
    by (auto simp: whole_inv_def pending_def Sync_call_def  split: if_splits option.splits)
next
  case CallClose
  with assms(2) show ?thesis
    by (auto simp: whole_inv_def pending_def Close_call_def  split: if_splits option.splits)
next
  case (Transfer m b n once)
  with assms(2) show ?thesis
    by (auto simp: whole_inv_def pending_def Write_transfer_def Let_def  split: if_splits option.splits)
next
  case (WriteDone n)
  with assms(2) show ?thesis
    by (auto simp: whole_inv_def pending_def   split: if_splits option.splits)
next
  case (WriteAbort b n once)
  with assms(2) show ?thesis
    by (auto simp: whole_inv_def pending_def   split: if_splits option.splits)
next
  case (SyncRecv v q)
  with assms(2) show ?thesis
    by (auto simp: whole_inv_def pending_def   split: if_splits option.splits)
next
  case (PutFail be)
  with assms(2) show ?thesis
    by (auto simp: whole_inv_def pending_def   split: if_splits option.splits)
next
  case (PutEnd fault)
  with assms(2) show ?thesis
    by (auto simp: whole_inv_def pending_def Put_end_def Let_def  split: if_splits option.splits)
next
  case TaskCloseRead
  with assms(2) show ?thesis
    by (auto simp: whole_inv_def pending_def Task_closeRead_def  split: if_splits option.splits)
next
  case TaskSend
  with assms(2) show ?thesis
    by (auto simp: whole_inv_def pending_def   split: if_splits option.splits)
qed

subsection \<open>Steps that keep what has been reached\<close>

lemma didSync_step:
  assumes "step e st = Some st'"
    and "didSync st"
  shows "didSync st'"
  using assms(1)
proof (cases rule: step_elim)
  case (CallWrite p)
  with assms(2) show ?thesis
    by (auto simp:  Write_call_def  split: if_splits option.splits)
next
  case CallSync
  with assms(2) show ?thesis
    by (auto simp:  Sync_call_def  split: if_splits option.splits)
next
  case CallClose
  with assms(2) show ?thesis
    by (auto simp:  Close_call_def  split: if_splits option.splits)
next
  case (Transfer m b n once)
  with assms(2) show ?thesis
    by (auto simp:  Write_transfer_def Let_def  split: if_splits option.splits)
next
  case (WriteDone n)
  with assms(2) show ?thesis
    by (auto simp:    split: if_splits option.splits)
next
  case (WriteAbort b n once)
  with assms(2) show ?thesis
    by (auto simp:    split: if_splits option.splits)
next
  case (SyncRecv v q)
  with assms(2) show ?thesis
    by (auto simp:    split: if_splits option.splits)
next
  case (PutFail be)
  with assms(2) show ?thesis
    by (auto simp:    split: if_splits option.splits)
next
  case (PutEnd fault)
  with assms(2) show ?thesis
    by (auto simp:  Put_end_def Let_def  split: if_splits option.splits)
next
  case TaskCloseRead
  with assms(2) show ?thesis
    by (auto simp:  Task_closeRead_def  split: if_splits option.splits)
next
  case TaskSend
  with assms(2) show ?thesis
    by (auto simp:    split: if_splits option.splits)
qed

lemma put_failed_step:
  assumes "step e st = Some st'"
    and "put_failed st"
  shows "put_failed st'"
  using assms(1)
proof (cases rule: step_elim)
  case (CallWrite p)
  with assms(2) show ?thesis
    by (auto simp: put_failed_def Write_call_def  split: if_splits option.splits)
next
  case CallSync
  with assms(2) show ?thesis
    by (auto simp: put_failed_def Sync_call_def  split: if_splits option.splits)
next
  case CallClose
  with assms(2) show ?thesis
    by (auto simp: put_failed_def Close_call_def  split: if_splits option.splits)
next
  case (Transfer m b n once)
  with assms(2) show ?thesis
    by (auto simp: put_failed_def Write_transfer_def Let_def  split: if_splits option.splits)
next
  case (WriteDone n)
  with assms(2) show ?thesis
    by (auto simp: put_failed_def   split: if_splits option.splits)
next
  case (WriteAbort b n once)
  with assms(2) show ?thesis
    by (auto simp: put_failed_def   split: if_splits option.splits)
next
  case (SyncRecv v q)
  with assms(2) show ?thesis
    by (auto simp: put_failed_def   split: if_splits option.splits)
next
  case (PutFail be)
  with assms(2) show ?thesis
    by (auto simp: put_failed_def   split: if_splits option.splits)
next
  case (PutEnd fault)
  with assms(2) show ?thesis
    by (auto simp: put_failed_def Put_end_def Let_def  split: if_splits option.splits)
next
  case TaskCloseRead
  with assms(2) show ?thesis
    by (auto simp: put_failed_def Task_closeRead_def  split: if_splits option.splits)
next
  case TaskSend
  with assms(2) show ?thesis
    by (auto simp: put_failed_def   split: if_splits option.splits)
qed

lemma done_step:
  assumes "step e st = Some st'"
    and "pipe_done (pipe st)"
  shows "pipe_done (pipe st') \<and> put_read st' = put_read st"
  using assms(1)
proof (cases rule: step_elim)
  case (CallWrite p)
  with assms(2) show ?thesis
    by (auto simp: pipe_done_def Write_call_def closeWrite_def closeRead_def store_once_def split: if_splits option.splits)
next
  case CallSync
  with assms(2) show ?thesis
    by (auto simp: pipe_done_def Sync_call_def closeWrite_def closeRead_def store_once_def split: if_splits option.splits)
next
  case CallClose
  with assms(2) show ?thesis
    by (auto simp: pipe_done_def Close_call_def closeWrite_def closeRead_def store_once_def split: if_splits option.splits)
next
  case (Transfer m b n once)
  with assms(2) show ?thesis
    by (auto simp: pipe_done_def Write_transfer_def Let_def closeWrite_def closeRead_def store_once_def split: if_splits option.splits)
next
  case (WriteDone n)
  with assms(2) show ?thesis
    by (auto simp: pipe_done_def  closeWrite_def closeRead_def store_once_def split: if_splits option.splits)
next
  case (WriteAbort b n once)
  with assms(2) show ?thesis
    by (auto simp: pipe_done_def  closeWrite_def closeRead_def store_once_def split: if_splits option.splits)
next
  case (SyncRecv v q)
  with assms(2) show ?thesis
    by (auto simp: pipe_done_def  closeWrite_def closeRead_def store_once_def split: if_splits option.splits)
next
  case (PutFail be)
  with assms(2) show ?thesis
    by (auto simp: pipe_done_def  closeWrite_def closeRead_def store_once_def split: if_splits option.splits)
next
  case (PutEnd fault)
  with assms(2) show ?thesis
    by (auto simp: pipe_done_def Put_end_def Let_def closeWrite_def closeRead_def store_once_def split: if_splits option.splits)
next
  case TaskCloseRead
  with assms(2) show ?thesis
    by (auto simp: pipe_done_def Task_closeRead_def closeWrite_def closeRead_def store_once_def split: if_splits option.splits)
next
  case TaskSend
  with assms(2) show ?thesis
    by (auto simp: pipe_done_def  closeWrite_def closeRead_def store_once_def split: if_splits option.splits)
qed


lemma panicked_step:
  assumes "step e st = Some st'"
    and "caller st = Panicked m"
  shows "caller st' = Panicked m \<and> rets st' = rets st"
  using assms(1)
proof (cases rule: step_elim)
  case (CallWrite p)
  with assms(2) show ?thesis
    by (auto simp:  Write_call_def  split: if_splits option.splits)
next
  case CallSync
  with assms(2) show ?thesis
    by (auto simp:  Sync_call_def  split: if_splits option.splits)
next
  case CallClose
  with assms(2) show ?thesis
    by (auto simp:  Close_call_def  split: if_splits option.splits)
next
  case (Transfer m b n once)
  with assms(2) show ?thesis
    by (auto simp:  Write_transfer_def Let_def  split: if_splits option.splits)
next
  case (WriteDone n)
  with assms(2) show ?thesis
    by (auto simp:    split: if_splits option.splits)
next
  case (WriteAbort b n once)
  with assms(2) show ?thesis
    by (auto simp:    split: if_splits option.splits)
next
  case (SyncRecv v q)
  with assms(2) show ?thesis
    by (auto simp:    split: if_splits option.splits)
next
  case (PutFail be)
  with assms(2) show ?thesis
    by (auto simp:    split: if_splits option.splits)
next
  case (PutEnd fault)
  with assms(2) show ?thesis
    by (auto simp:  Put_end_def Let_def  split: if_splits option.splits)
next
  case TaskCloseRead
  with assms(2) show ?thesis
    by (auto simp:  Task_closeRead_def  split: if_splits option.splits)
next
  case TaskSend
  with assms(2) show ?thesis
    by (auto simp:    split: if_splits option.splits)
qed

lemma finished_step:
  assumes "step e st = Some st'"
  shows "(if task st' = Finished then 1 else 0) = (if task st = Finished then 1 else 0) + (if e = TaskSend then 1 else (0::nat))"
  using assms(1)
proof (cases rule: step_elim)
  case (CallWrite p)
  then show ?thesis
    by (auto simp:  Write_call_def  split: if_splits option.splits)
next
  case CallSync
  then show ?thesis
    by (auto simp:  Sync_call_def  split: if_splits option.splits)
next
  case CallClose
  then show ?thesis
    by (auto simp:  Close_call_def  split: if_splits option.splits)
next
  case (Transfer m b n once)
  then show ?thesis
    by (auto simp:  Write_transfer_def Let_def  split: if_splits option.splits)
next
  case (WriteDone n)
  then show ?thesis
    by (auto simp:    split: if_splits option.splits)
next
  case (WriteAbort b n once)
  then show ?thesis
    by (auto simp:    split: if_splits option.splits)
next
  case (SyncRecv v q)
  then show ?thesis
    by (auto simp:    split: if_splits option.splits)
next
  case (PutFail be)
  then show ?thesis
    by (auto simp:    split: if_splits option.splits)
next
  case (PutEnd fault)
  then show ?thesis
    by (auto simp:  Put_end_def Let_def  split: if_splits option.splits)
next
  case TaskCloseRead
  then show ?thesis
    by (auto simp:  Task_closeRead_def  split: if_splits option.splits)
next
  case TaskSend
  then show ?thesis
    by (auto simp:    split: if_splits option.splits)
qed


lemma didSync_run: "didSync st0 \<Longrightarrow> run es st0 = Some st \<Longrightarrow> didSync st"
  by (rule run_invariant [where P = didSync]) (auto intro: didSync_step)

lemma put_failed_run: "put_failed st0 \<Longrightarrow> run es st0 = Some st \<Longrightarrow> put_failed st"
  by (rule run_invariant [where P = put_failed]) (auto intro: put_failed_step)


lemma panicked_run:
  "caller st0 = Panicked m \<Longrightarrow> run es st0 = Some st \<Longrightarrow> caller st = Panicked m \<and> rets st = rets st0"
  by (rule run_invariant [where P = "\<lambda>st. caller st = Panicked m \<and> rets st = rets st0"])
    (auto dest: panicked_step)

lemma done_run:
  "pipe_done (pipe st0) \<Longrightarrow> run es st0 = Some st \<Longrightarrow> pipe_done (pipe st) \<and> put_read st = put_read st0"
  by (rule run_invariant [where P = "\<lambda>st. pipe_done (pipe st) \<and> put_read st = put_read st0"])
    (auto dest: done_step)

lemma sync_called_run: "run es st0 = Some st \<Longrightarrow> CallSync \<in> set es \<Longrightarrow> didSync st"
proof (induction es arbitrary: st0)
  case Nil
  then show ?case by simp
next
  case (Cons e es)
  from Cons.prems(1) obtain st1 where s1: "step e st0 = Some st1" and r: "run es st1 = Some st"
    by (auto split: option.splits)
  show ?case
  proof (cases "e = CallSync")
    case True
    with s1 have "didSync st1" by (auto simp: Sync_call_def split: if_splits)
    from didSync_run [OF this r] show ?thesis .
  next
    case False
    with Cons.prems(2) have "CallSync \<in> set es" by simp
    with Cons.IH r show ?thesis by blast
  qed
qed

lemma finished_run:
  "run es st0 = Some st \<Longrightarrow>
     (if task st = Finished then 1 else 0) = (if task st0 = Finished then 1 else 0) + count_list es TaskSend"
proof (induction es arbitrary: st0)
  case Nil
  then show ?case by simp
next
  case (Cons e es)
  from Cons.prems obtain st1 where s1: "step e st0 = Some st1" and r: "run es st1 = Some st"
    by (auto split: option.splits)
  from finished_step [OF s1] Cons.IH [OF r] show ?case by (simp split: if_splits)
qed

lemma sync_rets_mem: "SyncRet v \<in> set rs \<longleftrightarrow> v \<in> set (sync_rets rs)"
  by (induction rs rule: sync_rets.induct) auto

lemma chan_inv_received:
  assumes "chan_inv st" and "SyncRet v \<in> set (rets st)"
  shows "task st = Finished \<and> v = put_err st"
proof -
  from assms(2) have m: "v \<in> set (sync_rets (rets st) @ errCh st)" by (simp add: sync_rets_mem)
  with assms(1) show ?thesis by (auto simp: chan_inv_def split: if_splits)
qed

lemma run_history_invariant:
  assumes "\<And>e st st' off. P off st \<Longrightarrow> step e st = Some st' \<Longrightarrow> P (off @ write_arg e) st'"
    and "P off st0" and "run es st0 = Some st"
  shows "P (off @ offered es) st"
  using assms(2,3)
proof (induction es arbitrary: off st0)
  case Nil
  then show ?case by (simp add: offered_def)
next
  case (Cons e es)
  from Cons.prems(2) obtain st1 where s1: "step e st0 = Some st1" and r: "run es st1 = Some st"
    by (auto split: option.splits)
  from assms(1) [OF Cons.prems(1) s1] have "P (off @ write_arg e) st1" .
  from Cons.IH [OF this r] show ?case by (simp add: offered_def)
qed

lemma count_inv_reach:
  assumes "run es (fst (Create s key w)) = Some st"
  shows "count_inv st"
proof (rule run_invariant [where P = count_inv, OF _ _ assms])
  show "count_inv (fst (Create s key w))"
    by (simp add: count_inv_def acked_def Create_def)
  show "\<And>e st st'. count_inv st \<Longrightarrow> step e st = Some st' \<Longrightarrow> count_inv st'"
    by (rule count_inv_step)
qed

lemma prefix_inv_reach: "run es (fst (Create s key w)) = Some st \<Longrightarrow> prefix_inv (offered es) st"
  using run_history_invariant [where P = prefix_inv and off = "[]" and es = es and st = st
      and ?st0.0 = "fst (Create s key w)"] prefix_inv_step
  by (simp add: prefix_inv_def pending_def pipe_done_def Create_def)

lemma whole_inv_reach: "run es (fst (Create s key w)) = Some st \<Longrightarrow> whole_inv (offered es) st"
  using run_history_invariant [where P = whole_inv and off = "[]" and es = es and st = st
      and ?st0.0 = "fst (Create s key w)"] whole_inv_step
  by (simp add: whole_inv_def pending_def Create_def)

lemma blocked_put_failed:
  assumes "pipe_inv st" and "put_inv s key w st" and "\<not> pipe_done (pipe st)" and "task st \<noteq> InPut"
  shows "task st = PutReturned \<and> put_err st \<noteq> None"
  using assms
  by (cases "task st") (auto simp: pipe_inv_def put_inv_def pipe_done_def split: option.splits)

lemma finish_write_returns:
  assumes "pipe_inv st" and "put_inv s key w st" and "caller st = InWrite b n once"
  shows "\<exists>st'. run (finish_write st) st = Some st' \<and> caller st' = Idle \<and>
           (\<not> pipe_done (pipe st) \<and> task st = InPut \<longrightarrow>
              rets st' = rets st @ [WriteRet (n + length b) None] \<and> put_read st' = put_read st @ b)"
proof (cases "\<not> (once \<or> b \<noteq> []) \<or> pipe_done (pipe st)")
  case True
  with assms(3) show ?thesis
    by (auto simp: finish_write_def Write_return_def)
next
  case False
  note open_pipe = this
  show ?thesis
  proof (cases "task st = InPut")
    case True
    with open_pipe assms(3) show ?thesis
      by (auto simp: finish_write_def Write_return_def Write_transfer_def Let_def)
  next
    case False
    with blocked_put_failed [OF assms(1,2)] open_pipe
    have "task st = PutReturned" and "put_err st \<noteq> None" by simp_all
    with open_pipe assms(3) show ?thesis
      by (auto simp: finish_write_def Write_return_def Task_closeRead_def pipe_done_def
          closeRead_def store_once_def split: option.splits)
  qed
qed

lemma presync_inv_step:
  assumes "step e st = Some st'"
    and "pipe_inv st"
    and "presync_inv off st"
    and "e \<noteq> CallSync"
    and "e \<noteq> CallClose"
  shows "presync_inv (off @ write_arg e) st'"
  using assms(1)
proof (cases rule: step_elim)
  case (CallWrite p)
  with assms(2-5) show ?thesis
    by (auto simp: presync_inv_def pipe_inv_def pending_def put_failed_def Write_call_def pipe_done_def closeRead_def store_once_def readCloseError_def split: if_splits option.splits)
next
  case CallSync
  with assms(2-5) show ?thesis
    by (auto simp: presync_inv_def pipe_inv_def pending_def put_failed_def Sync_call_def pipe_done_def closeRead_def store_once_def readCloseError_def split: if_splits option.splits)
next
  case CallClose
  with assms(2-5) show ?thesis
    by (auto simp: presync_inv_def pipe_inv_def pending_def put_failed_def Close_call_def pipe_done_def closeRead_def store_once_def readCloseError_def split: if_splits option.splits)
next
  case (Transfer m b n once)
  with assms(2-5) show ?thesis
    by (auto simp: presync_inv_def pipe_inv_def pending_def put_failed_def Write_transfer_def Let_def pipe_done_def closeRead_def store_once_def readCloseError_def split: if_splits option.splits)
next
  case (WriteDone n)
  with assms(2-5) show ?thesis
    by (auto simp: presync_inv_def pipe_inv_def pending_def put_failed_def  pipe_done_def closeRead_def store_once_def readCloseError_def split: if_splits option.splits)
next
  case (WriteAbort b n once)
  with assms(2-5) show ?thesis
    by (auto simp: presync_inv_def pipe_inv_def pending_def put_failed_def  pipe_done_def closeRead_def store_once_def readCloseError_def split: if_splits option.splits)
next
  case (SyncRecv v q)
  with assms(2-5) show ?thesis
    by (auto simp: presync_inv_def pipe_inv_def pending_def put_failed_def  pipe_done_def closeRead_def store_once_def readCloseError_def split: if_splits option.splits)
next
  case (PutFail be)
  with assms(2-5) show ?thesis
    by (auto simp: presync_inv_def pipe_inv_def pending_def put_failed_def  pipe_done_def closeRead_def store_once_def readCloseError_def split: if_splits option.splits)
next
  case (PutEnd fault)
  with assms(2-5) show ?thesis
    by (auto simp: presync_inv_def pipe_inv_def pending_def put_failed_def Put_end_def Let_def pipe_done_def closeRead_def store_once_def readCloseError_def split: if_splits option.splits)
next
  case TaskCloseRead
  with assms(2-5) show ?thesis
    by (auto simp: presync_inv_def pipe_inv_def pending_def put_failed_def Task_closeRead_def pipe_done_def closeRead_def store_once_def readCloseError_def split: if_splits option.splits)
next
  case TaskSend
  with assms(2-5) show ?thesis
    by (auto simp: presync_inv_def pipe_inv_def pending_def put_failed_def  pipe_done_def closeRead_def store_once_def readCloseError_def split: if_splits option.splits)
qed

lemma presync_inv_run:
  assumes "handle_inv s key w st0" and "presync_inv off st0" and "run es st0 = Some st"
    and "CallSync \<notin> set es" and "CallClose \<notin> set es"
  shows "presync_inv (off @ offered es) st"
  using assms
proof (induction es arbitrary: off st0)
  case Nil
  then show ?case by (simp add: offered_def)
next
  case (Cons e es)
  from Cons.prems(3) obtain st1 where s1: "step e st0 = Some st1" and r: "run es st1 = Some st"
    by (auto split: option.splits)
  from Cons.prems(1) have p: "pipe_inv st0" by (simp add: handle_inv_def)
  from Cons.prems(4,5) have ne: "e \<noteq> CallSync" "e \<noteq> CallClose" by auto
  from presync_inv_step [OF s1 p Cons.prems(2) ne] have q: "presync_inv (off @ write_arg e) st1" .
  from handle_inv_step [OF Cons.prems(1) s1] have i: "handle_inv s key w st1" .
  from Cons.prems(4,5) have "CallSync \<notin> set es" "CallClose \<notin> set es" by auto
  from Cons.IH [OF i q r this] show ?case by (simp add: offered_def)
qed

lemma calls_split:
  "calls es = cs @ [c] \<Longrightarrow> \<exists>es1 es2. es = es1 @ c # es2 \<and> calls es1 = cs \<and> calls es2 = []"
proof (induction es arbitrary: cs)
  case Nil
  then show ?case by (simp add: calls_def)
next
  case (Cons e es)
  show ?case
  proof (cases "is_call e")
    case False
    with Cons.prems have "calls es = cs @ [c]" by (simp add: calls_def)
    from Cons.IH [OF this] obtain es1 es2 where "es = es1 @ c # es2" "calls es1 = cs" "calls es2 = []"
      by blast
    with False have "e # es = (e # es1) @ c # es2 \<and> calls (e # es1) = cs \<and> calls es2 = []"
      by (simp add: calls_def)
    then show ?thesis by blast
  next
    case True
    with Cons.prems have eq: "e # calls es = cs @ [c]" by (simp add: calls_def)
    show ?thesis
    proof (cases cs)
      case Nil
      with eq have "e = c" and "calls es = []" by simp_all
      then have "e # es = [] @ c # es \<and> calls [] = cs \<and> calls es = []"
        using Nil by (simp add: calls_def)
      then show ?thesis by blast
    next
      case (Cons d ds)
      with eq have d: "d = e" and "calls es = ds @ [c]" by simp_all
      from Cons.IH [OF this(2)] obtain es1 es2 where "es = es1 @ c # es2" "calls es1 = ds" "calls es2 = []"
        by blast
      with True d Cons have "e # es = (e # es1) @ c # es2 \<and> calls (e # es1) = cs \<and> calls es2 = []"
        by (simp add: calls_def)
      then show ?thesis by blast
    qed
  qed
qed

lemma write_arg_other: "\<not> is_call e \<Longrightarrow> write_arg e = []"
  by (cases e) simp_all

lemma offered_calls: "offered es = offered (calls es)"
  unfolding offered_def calls_def
  by (induction es) (simp_all add: write_arg_other)

lemma offered_writes: "offered (map CallWrite chunks) = concat chunks"
  unfolding offered_def by (induction chunks) auto

lemma call_in_calls: "is_call e \<Longrightarrow> e \<in> set es \<Longrightarrow> e \<in> set (calls es)"
  by (simp add: calls_def)

lemmas eval_defs = Create_def Write_call_def Write_transfer_def Write_return_def Sync_call_def
  Sync_recv_def Close_call_def Put_end_def Task_closeRead_def Task_send_def
  pipe_done_def store_once_def closeWrite_def closeRead_def writeCloseError_def readCloseError_def
  Let_def ex_store_def ex_world_def

text \<open>
  For every key the client accepts and every list of slices there is a run in which all
  writes and \<open>Sync\<close> succeed.
\<close>

lemma fresh_write:
  assumes "fresh st"
  shows "\<exists>st'. run [CallWrite c, Transfer (length c), WriteReturn] st = Some st' \<and> fresh st' \<and>
           rets st' = rets st @ [WriteRet (length c) None]"
  using assms
  by (simp add: fresh_def Write_call_def Write_transfer_def Write_return_def pipe_done_def Let_def)

lemma fresh_writes:
  assumes "fresh st"
  shows "\<exists>st'. run (concat (map (\<lambda>c. [CallWrite c, Transfer (length c), WriteReturn]) chunks)) st = Some st' \<and>
           fresh st' \<and> rets st' = rets st @ map (\<lambda>c. WriteRet (length c) None) chunks"
  using assms
proof (induction chunks arbitrary: st)
  case Nil
  then show ?case by simp
next
  case (Cons c cs)
  from fresh_write [OF Cons.prems, of c] obtain st1
    where r1: "run [CallWrite c, Transfer (length c), WriteReturn] st = Some st1" and f1: "fresh st1"
      and v1: "rets st1 = rets st @ [WriteRet (length c) None]"
    by blast
  from Cons.IH [OF f1] obtain st'
    where r2: "run (concat (map (\<lambda>c. [CallWrite c, Transfer (length c), WriteReturn]) cs)) st1 = Some st'"
      and f2: "fresh st'" and v2: "rets st' = rets st1 @ map (\<lambda>c. WriteRet (length c) None) cs"
    by blast
  have "run (concat (map (\<lambda>c. [CallWrite c, Transfer (length c), WriteReturn]) (c # cs))) st = Some st'"
    using r1 r2 run_append [of "[CallWrite c, Transfer (length c), WriteReturn]" _ st] by simp
  with f2 v1 v2 show ?case by auto
qed

lemma fresh_commit:
  assumes "fresh st"
  shows "\<exists>st'. run [CallSync, PutEnd None, TaskCloseRead, TaskSend, SyncRecv] st = Some st' \<and>
           rets st' = rets st @ [SyncRet None]"
  using assms
  by (simp add: fresh_def Sync_call_def Put_end_def Task_closeRead_def Task_send_def Sync_recv_def
      pipe_done_def closeWrite_def store_once_def readCloseError_def Let_def)

lemma calls_commit_schedule: "calls (commit_schedule chunks) = map CallWrite chunks @ [CallSync]"
  unfolding calls_def commit_schedule_def by (induction chunks) auto

lemma commit_schedule_succeeds:
  assumes "name_check w (bucketName s, objectPrefix s @ key) = None"
  shows "\<exists>st. run (commit_schedule chunks) (fst (Create s key w)) = Some st \<and>
        rets st = map (\<lambda>c. WriteRet (length c) None) chunks @ [SyncRet None]"
proof -
  have f: "fresh (fst (Create s key w))" using assms by (simp add: fresh_def Create_def)
  from fresh_writes [OF f, of chunks] obtain st1
    where r1: "run (concat (map (\<lambda>c. [CallWrite c, Transfer (length c), WriteReturn]) chunks))
                 (fst (Create s key w)) = Some st1"
      and f1: "fresh st1" and v1: "rets st1 = map (\<lambda>c. WriteRet (length c) None) chunks"
    by (auto simp: Create_def)
  from fresh_commit [OF f1] obtain st
    where r2: "run [CallSync, PutEnd None, TaskCloseRead, TaskSend, SyncRecv] st1 = Some st"
      and v2: "rets st = rets st1 @ [SyncRet None]"
    by blast
  from r1 r2 have "run (commit_schedule chunks) (fst (Create s key w)) = Some st"
    by (simp add: commit_schedule_def run_append)
  with v1 v2 show ?thesis by auto
qed

subsection \<open>Delete\<close>

lemma RemoveObject_fst:
  "fst (RemoveObject w b n) = (case rm_faults w of Some e # fs \<Rightarrow> Some (Backend e) | _ \<Rightarrow> None)"
  by (simp add: RemoveObject_def Let_def split: list.splits option.splits)

lemma RemoveObject_snd:
  "rm_calls (snd (RemoveObject w b n)) = rm_calls w @ [(b, n)]"
  "rm_faults (snd (RemoveObject w b n)) = tl (rm_faults w)"
  "log_out (snd (RemoveObject w b n)) = log_out w"
  by (simp_all add: RemoveObject_def Let_def split: list.splits option.splits)

lemma Delete_loop_calls:
  "rm_calls (snd (Delete_loop s keys lastErr w)) =
     rm_calls w @ map (\<lambda>k. (bucketName s, objectPrefix s @ k)) keys"
proof (induction keys arbitrary: lastErr w)
  case Nil
  show ?case by simp
next
  case (Cons k ks)
  obtain r w1 where rm: "RemoveObject w (bucketName s) (objectPrefix s @ k) = (r, w1)"
    by (cases "RemoveObject w (bucketName s) (objectPrefix s @ k)")
  have c: "rm_calls w1 = rm_calls w @ [(bucketName s, objectPrefix s @ k)]"
    using RemoveObject_snd(1) [of w "bucketName s" "objectPrefix s @ k"] rm by simp
  show ?case
    using rm c Cons.IH by (cases r) (simp_all add: log_Error_def)
qed

lemma Delete_loop_log:
  "log_out (snd (Delete_loop s keys lastErr w)) =
     log_out w @ [(''failed to delete object'', Backend e, objectPrefix s @ k).
                    (k, Some e) \<leftarrow> zip keys (rm_faults w)]"
proof (induction keys arbitrary: lastErr w)
  case Nil
  show ?case by simp
next
  case (Cons k ks)
  obtain r w1 where rm: "RemoveObject w (bucketName s) (objectPrefix s @ k) = (r, w1)"
    by (cases "RemoveObject w (bucketName s) (objectPrefix s @ k)")
  have f: "rm_faults w1 = tl (rm_faults w)" and l: "log_out w1 = log_out w"
    and r: "r = (case rm_faults w of Some e # fs \<Rightarrow> Some (Backend e) | _ \<Rightarrow> None)"
    using RemoveObject_snd(2,3) [of w "bucketName s" "objectPrefix s @ k"]
      RemoveObject_fst [of w "bucketName s" "objectPrefix s @ k"] rm by simp_all
  show ?case
  proof (cases "rm_faults w")
    case Nil
    with rm f l r Cons.IH [of None w1] show ?thesis by simp
  next
    case (Cons x fs)
    note fw = this
    show ?thesis
    proof (cases x)
      case None
      with fw rm f l r Cons.IH [of None w1] show ?thesis by simp
    next
      case (Some e)
      with fw rm f l r
        Cons.IH [of "Some (Backend e)" "log_Error ''failed to delete object'' (Backend e) (objectPrefix s @ k) w1"]
      show ?thesis by (simp add: log_Error_def)
    qed
  qed
qed

text \<open>
  C8: for every list of keys, \<open>Delete\<close> sends one removal request per key, in the order of
  the list and whatever the earlier removals answered (the requests the service has
  received grow by exactly the prefixed keys, in order), and it writes one line to the
  logger for each removal that failed, in the order of the failures, with the error and
  the prefixed key.
\<close>

theorem Delete_attempts_every_key:
  "rm_calls (snd (Delete s keys w)) =
     rm_calls w @ map (\<lambda>k. (bucketName s, objectPrefix s @ k)) keys \<and>
   log_out (snd (Delete s keys w)) =
     log_out w @ [(''failed to delete object'', Backend e, objectPrefix s @ k).
                    (k, Some e) \<leftarrow> zip keys (rm_faults w)]"
  unfolding Delete_def using Delete_loop_calls Delete_loop_log by blast

text \<open>
  C2: \<open>Delete\<close> is to return the last error met, so that a failed removal followed by
  successful ones still makes the call report an error. The loop assigns \<open>lastErr\<close> on
  every round, also with \<open>nil\<close>: with three keys of which the second fails, the failure
  is logged and the call returns \<open>nil\<close>.
\<close>

theorem Delete_last_success_hides_failure:
  "fst (Delete ex_store [''k1'', ''k2'', ''k3'']
         (ex_world\<lparr>rm_faults := [None, Some (TransportErr ''connection reset''), None]\<rparr>)) = None \<and>
   log_out (snd (Delete ex_store [''k1'', ''k2'', ''k3'']
         (ex_world\<lparr>rm_faults := [None, Some (TransportErr ''connection reset''), None]\<rparr>))) =
     [(''failed to delete object'', Backend (TransportErr ''connection reset''), ''blobs/k2'')]"
  by (simp add: Delete_def RemoveObject_def log_Error_def ex_store_def ex_world_def)

subsection \<open>Open\<close>

lemma Open_accepted_names:
  assumes "name_check w (bucketName s, objectPrefix s @ key) = None"
  shows "\<exists>r. Open s key w = Inr (Object r)"
  using assms by (simp add: Open_def GetObject_def)

lemma Open_refused_names:
  assumes "name_check w (bucketName s, objectPrefix s @ key) = Some e"
  shows "Open s key w = (if StatusCode e = 404 then Inl ErrNoSuchBlob else Inl (Backend e))"
  using assms by (simp add: Open_def GetObject_def StatusNotFound_def)

text \<open>
  C7: \<open>Open\<close> is to return \<open>ErrNoSuchBlob\<close> when the service answers 404, and lines
  135-138 are written for that. But \<open>GetObject\<close> is lazy: on names the client accepts it
  returns a reader and \<open>nil\<close>, so the test of line 134 fails and \<open>Open\<close> returns the
  reader; the answer 404 of a key that was never written arrives with the first \<open>Read\<close>
  of that reader, after \<open>Open\<close> has returned, as an error of the client and not as
  \<open>ErrNoSuchBlob\<close>. The same holds for any other failure of the service.
\<close>

theorem Open_missing_key_returns_reader:
  "Open ex_store ''k'' ex_world =
     Inr (Object (Inl (ErrorResponse 404 ''The specified key does not exist.''))) \<and>
   Open ex_store ''k'' ex_world \<noteq> Inl ErrNoSuchBlob \<and>
   Open ex_store ''k'' (ex_world\<lparr>get_fault := Some (ErrorResponse 403 ''Access Denied'')\<rparr>) =
     Inr (Object (Inl (ErrorResponse 403 ''Access Denied'')))"
  by (simp add: Open_def GetObject_def ex_store_def ex_world_def)

subsection \<open>Close\<close>

text \<open>
  C10: in every state of the handle, before \<open>Sync\<close> as well as after it, \<open>Close\<close> returns
  \<open>nil\<close>: the call adds the return value \<open>nil\<close> to what the caller has seen, and nothing
  else.
\<close>

theorem Close_returns_nil:
  "rets (Close_call st) = rets st @ [CloseRet None]"
  by (simp add: Close_call_def Let_def)

subsection \<open>The write handle\<close>

text \<open>
  C1: for every key and every list of slices, also the empty list and empty slices: when
  the calls on a fresh handle are the writes of the slices in order followed by \<open>Sync\<close>,
  whatever the two goroutines and the service do in between, and \<open>Sync\<close> has returned
  \<open>nil\<close>, then \<open>Open\<close> of the same key returns a reader that yields exactly the
  concatenation of the slices (the service answering the request for the object). Such
  runs exist for every list of slices (\<open>commit_schedule_succeeds\<close>).
\<close>

theorem Create_Write_Sync_Open_roundtrip:
  assumes "run es (fst (Create s key w)) = Some st"
    and "calls es = map CallWrite chunks @ [CallSync]"
    and "SyncRet None \<in> set (rets st)"
    and "get_fault w = None"
  shows "Open s key (outside st) = Inr (Object (Inr (concat chunks)))"
proof -
  from calls_split [OF assms(2)] obtain es1 es2
    where es: "es = es1 @ CallSync # es2" and c1: "calls es1 = map CallWrite chunks"
    by blast
  have ns: "CallSync \<notin> set es1"
  proof
    assume "CallSync \<in> set es1"
    then have "CallSync \<in> set (calls es1)" by (simp add: call_in_calls)
    with c1 show False by auto
  qed
  have nc: "CallClose \<notin> set es1"
  proof
    assume "CallClose \<in> set es1"
    then have "CallClose \<in> set (calls es1)" by (simp add: call_in_calls)
    with c1 show False by auto
  qed
  from assms(1) es obtain st1 st2 where r1: "run es1 (fst (Create s key w)) = Some st1"
    and s2: "step CallSync st1 = Some st2" and r2: "run es2 st2 = Some st"
    by (auto simp: run_append split: option.splits)
  have "presync_inv [] (fst (Create s key w))"
    by (simp add: presync_inv_def pending_def Create_def)
  from presync_inv_run [OF handle_inv_Create this r1 ns nc]
  have q: "presync_inv (offered es1) st1" by simp
  have off: "offered es1 = concat chunks"
    using offered_calls [of es1] c1 offered_writes by simp
  from s2 have idle: "caller st1 = Idle" and st2: "st2 = Sync_call st1"
    by (simp_all split: if_splits)
  from handle_inv_reach [OF r1] have p1: "pipe_inv st1" by (simp add: handle_inv_def)
  from q p1 have nd: "\<not> didSync st1" by (auto simp: presync_inv_def pipe_inv_def)
  from st2 nd have d2: "pipe_done (pipe st2)" and rd2: "put_read st2 = put_read st1"
    and f2: "put_failed st2 = put_failed st1"
    by (simp_all add: Sync_call_def pipe_done_def closeWrite_def store_once_def put_failed_def
        split: option.splits)
  from done_run [OF d2 r2] rd2 have rd: "put_read st = put_read st1" by simp
  from handle_inv_reach [OF assms(1)] have c: "chan_inv st" and u: "put_inv s key w st"
    by (simp_all add: handle_inv_def)
  from chan_inv_received [OF c assms(3)] have fin: "task st = Finished" and ok: "put_err st = None"
    by simp_all
  then have "\<not> put_failed st" by (simp add: put_failed_def)
  with put_failed_run [OF _ r2] f2 have "\<not> put_failed st1" by blast
  with q idle off have "put_read st1 = concat chunks"
    by (simp add: presync_inv_def pending_def)
  with rd have all: "put_read st = concat chunks" by simp
  from u fin ok have
    "outside st = w\<lparr>objects := (objects w)((bucketName s, objectPrefix s @ key) \<mapsto> put_read st)\<rparr>"
    and "name_check w (bucketName s, objectPrefix s @ key) = None"
    by (simp_all add: put_inv_def)
  with all assms(4) show ?thesis
    by (simp add: Open_def GetObject_def)
qed

theorem Create_Write_Sync_Open_roundtrip_witness:
  "\<exists>st. run [CallWrite [1, 2, 3], Transfer 2, Transfer 4096, WriteReturn,
              CallWrite [], Transfer 4096, WriteReturn,
              CallWrite [4], Transfer 4096, WriteReturn,
              CallSync, PutEnd None, TaskCloseRead, TaskSend, SyncRecv]
           (fst (Create ex_store ''k'' ex_world)) = Some st \<and>
        SyncRet None \<in> set (rets st) \<and>
        Open ex_store ''k'' (outside st) = Inr (Object (Inr [1, 2, 3, 4]))"
proof -
  let ?es = "[CallWrite [1, 2, 3], Transfer 2, Transfer 4096, WriteReturn,
              CallWrite [], Transfer 4096, WriteReturn,
              CallWrite [4], Transfer 4096, WriteReturn,
              CallSync, PutEnd None, TaskCloseRead, TaskSend, SyncRecv]"
  obtain st where r: "run ?es (fst (Create ex_store ''k'' ex_world)) = Some st"
    and v: "SyncRet None \<in> set (rets st)"
    by (simp add: eval_defs)
  have c: "calls ?es = map CallWrite [[1, 2, 3], [], [4]] @ [CallSync]"
    by (simp add: calls_def)
  have g: "get_fault ex_world = None" by (simp add: ex_world_def)
  from Create_Write_Sync_Open_roundtrip [OF r c v g] r v show ?thesis by auto
qed

text \<open>
  C3, as the code has it: a value returned by \<open>Sync\<close> is the value the goroutine has sent,
  which is the result of \<open>PutObject\<close> itself: \<open>nil\<close> when the upload has succeeded (the
  object then holds the bytes read), and otherwise the error of \<open>PutObject\<close> as it is, an
  error of the client or the error \<open>Close\<close> put into the pipe, with the world unchanged.
  The error wrapped as \<open>s3 PutObject: ...\<close> is what the read end of the pipe is closed
  with; it is not what \<open>Sync\<close> returns, and it does not name the key.
\<close>

theorem Sync_returns_put_result:
  assumes "run es (fst (Create s key w)) = Some st"
    and "SyncRet v \<in> set (rets st)"
  shows "task st = Finished \<and> v = put_err st \<and>
         (v = None \<or> (\<exists>be. v = Some (Backend be)) \<or> v = Some closeErr) \<and>
         (v = None \<longrightarrow> objects (outside st) (bucketName s, objectPrefix s @ key) = Some (put_read st)) \<and>
         (v \<noteq> None \<longrightarrow> outside st = w) \<and>
         rerr (pipe st) = map_option (ErrorfW ''s3 PutObject: '') v"
proof -
  from handle_inv_reach [OF assms(1)] have c: "chan_inv st" and p: "pipe_inv st" and u: "put_inv s key w st"
    by (simp_all add: handle_inv_def)
  from chan_inv_received [OF c assms(2)] have f: "task st = Finished" and v: "v = put_err st"
    by simp_all
  from p f v have r: "rerr (pipe st) = map_option (ErrorfW ''s3 PutObject: '') v"
    by (simp add: pipe_inv_def)
  from u f v have "(v = None \<or> (\<exists>be. v = Some (Backend be)) \<or> v = Some closeErr) \<and>
         (v = None \<longrightarrow> objects (outside st) (bucketName s, objectPrefix s @ key) = Some (put_read st)) \<and>
         (v \<noteq> None \<longrightarrow> outside st = w)"
    by (auto simp: put_inv_def split: option.splits)
  with f v r show ?thesis by simp
qed

theorem Sync_returns_put_result_witness:
  "(\<exists>st. run [CallSync, PutEnd None, TaskCloseRead, TaskSend, SyncRecv]
            (fst (Create ex_store ''k'' ex_world)) = Some st \<and>
         SyncRet None \<in> set (rets st) \<and> put_err st = None \<and>
         objects (outside st) (bucketName ex_store, objectPrefix ex_store @ ''k'') = Some (put_read st)) \<and>
   (\<exists>st. run [PutFail (TransportErr ''connection reset''), TaskCloseRead, TaskSend, CallSync, SyncRecv]
            (fst (Create ex_store ''k'' ex_world)) = Some st \<and>
         SyncRet (Some (Backend (TransportErr ''connection reset''))) \<in> set (rets st) \<and>
         put_err st = Some (Backend (TransportErr ''connection reset'')) \<and>
         outside st = ex_world \<and>
         rerr (pipe st) = Some (ErrorfW ''s3 PutObject: '' (Backend (TransportErr ''connection reset''))))"
proof -
  obtain a where ra: "run [CallSync, PutEnd None, TaskCloseRead, TaskSend, SyncRecv]
            (fst (Create ex_store ''k'' ex_world)) = Some a" and va: "SyncRet None \<in> set (rets a)"
    by (simp add: eval_defs)
  obtain b where rb: "run [PutFail (TransportErr ''connection reset''), TaskCloseRead, TaskSend, CallSync, SyncRecv]
            (fst (Create ex_store ''k'' ex_world)) = Some b"
    and vb: "SyncRet (Some (Backend (TransportErr ''connection reset''))) \<in> set (rets b)"
    by (simp add: eval_defs)
  from Sync_returns_put_result [OF ra va] Sync_returns_put_result [OF rb vb] ra va rb vb
  show ?thesis by auto
qed

text \<open>
  The claim C3 as stated fails: when \<open>PutObject\<close> fails with a transport error, \<open>Sync\<close>
  returns that very error, and only the pipe holds the wrapped one.
\<close>

theorem Sync_error_not_wrapped:
  "map_option rets
     (run [PutFail (TransportErr ''connection reset''), TaskCloseRead, TaskSend, CallSync, SyncRecv]
        (fst (Create ex_store ''k'' ex_world))) =
     Some [SyncRet (Some (Backend (TransportErr ''connection reset'')))] \<and>
   map_option (rerr \<circ> pipe)
     (run [PutFail (TransportErr ''connection reset''), TaskCloseRead, TaskSend, CallSync, SyncRecv]
        (fst (Create ex_store ''k'' ex_world))) =
     Some (Some (ErrorfW ''s3 PutObject: '' (Backend (TransportErr ''connection reset''))))"
  by (simp add: eval_defs)

text \<open>
  C4: once \<open>Sync\<close> has been called on a handle, whatever happened before and after, a
  further call of \<open>Sync\<close> panics: the caller is stopped with the message of the panic,
  nothing is returned by that call or after it, and over the whole life of the handle
  \<open>Sync\<close> returns at most once.
\<close>

theorem Sync_twice_panics:
  assumes "run es (fst (Create s key w)) = Some st"
    and "CallSync \<in> set es"
    and "caller st = Idle"
  shows "step CallSync st =
           Some (st\<lparr>caller := Panicked ''storage.blob.s3: Sync called twice for a blob object''\<rparr>) \<and>
         (\<forall>es' st'. run (CallSync # es') st = Some st' \<longrightarrow>
            rets st' = rets st \<and> (\<exists>m. caller st' = Panicked m)) \<and>
         length (sync_rets (rets st)) \<le> 1"
proof -
  from assms(1,2) have d: "didSync st" by (rule sync_called_run)
  let ?p = "st\<lparr>caller := Panicked ''storage.blob.s3: Sync called twice for a blob object''\<rparr>"
  from d assms(3) have s: "step CallSync st = Some ?p" by (simp add: Sync_call_def)
  have "rets st' = rets st \<and> (\<exists>m. caller st' = Panicked m)" if "run (CallSync # es') st = Some st'" for es' st'
  proof -
    from that s have "run es' ?p = Some st'" by simp
    from panicked_run [OF _ this, of "''storage.blob.s3: Sync called twice for a blob object''"]
    show ?thesis by simp
  qed
  moreover from handle_inv_reach [OF assms(1)] have "chan_inv st" by (simp add: handle_inv_def)
  then have "length (sync_rets (rets st) @ errCh st) \<le> 1" by (simp add: chan_inv_def)
  then have "length (sync_rets (rets st)) \<le> 1" by simp
  ultimately show ?thesis using s by blast
qed

theorem Sync_twice_panics_witness:
  "\<exists>st. run [CallSync, PutEnd None, TaskCloseRead, TaskSend, SyncRecv]
           (fst (Create ex_store ''k'' ex_world)) = Some st \<and>
        CallSync \<in> set [CallSync, PutEnd None, TaskCloseRead, TaskSend, SyncRecv] \<and>
        caller st = Idle \<and> rets st = [SyncRet None] \<and>
        step CallSync st =
          Some (st\<lparr>caller := Panicked ''storage.blob.s3: Sync called twice for a blob object''\<rparr>)"
proof -
  obtain st where r: "run [CallSync, PutEnd None, TaskCloseRead, TaskSend, SyncRecv]
           (fst (Create ex_store ''k'' ex_world)) = Some st"
    and c: "caller st = Idle" and v: "rets st = [SyncRet None]"
    by (simp add: eval_defs)
  have m: "CallSync \<in> set [CallSync, PutEnd None, TaskCloseRead, TaskSend, SyncRecv]" by simp
  from Sync_twice_panics [OF r m c] r m c v show ?thesis by blast
qed

text \<open>
  C5: in every state a handle can reach, the channel has capacity one and holds at most
  one value; the goroutine has sent exactly once when it has finished and not before;
  at its send the channel is empty, so the send goes through at once; and once
  \<open>PutObject\<close> has returned, with or without an error, the two remaining steps of the
  goroutine can always be taken and finish it, whatever the caller does.
\<close>

theorem errCh_one_send:
  assumes "run es (fst (Create s key w)) = Some st"
  shows "errCh_cap st = 1 \<and> length (errCh st) \<le> errCh_cap st \<and>
         count_list es TaskSend = (if task st = Finished then 1 else 0) \<and>
         (task st = Sending \<longrightarrow>
            step TaskSend st = Some (st\<lparr>errCh := [put_err st], task := Finished\<rparr>)) \<and>
         (task st = PutReturned \<longrightarrow>
            (\<exists>st'. run [TaskCloseRead, TaskSend] st = Some st' \<and> task st' = Finished \<and>
                   errCh st' = [put_err st]))"
proof -
  from handle_inv_reach [OF assms] have c: "chan_inv st" by (simp add: handle_inv_def)
  then have cap: "errCh_cap st = 1" by (simp add: chan_inv_def)
  from c have "length (sync_rets (rets st) @ errCh st) \<le> 1" by (simp add: chan_inv_def)
  then have len: "length (errCh st) \<le> errCh_cap st" using cap by simp
  from finished_run [OF assms]
  have cnt: "count_list es TaskSend = (if task st = Finished then 1 else 0)"
    by (simp add: Create_def)
  have snd: "step TaskSend st = Some (st\<lparr>errCh := [put_err st], task := Finished\<rparr>)"
    if "task st = Sending"
    using that c by (simp add: chan_inv_def Task_send_def)
  have fin: "\<exists>st'. run [TaskCloseRead, TaskSend] st = Some st' \<and> task st' = Finished \<and>
      errCh st' = [put_err st]" if "task st = PutReturned"
    using that c by (simp add: chan_inv_def Task_send_def Task_closeRead_def split: option.splits)
  from cap len cnt snd fin show ?thesis by blast
qed

theorem errCh_one_send_witness:
  "(\<exists>st. run [PutFail (TransportErr ''connection reset''), TaskCloseRead]
            (fst (Create ex_store ''k'' ex_world)) = Some st \<and>
         task st = Sending \<and>
         step TaskSend st = Some (st\<lparr>errCh := [put_err st], task := Finished\<rparr>)) \<and>
   (\<exists>st. run [CallClose] (fst (Create ex_store ''k'' ex_world)) = Some st \<and>
         count_list [CallClose] TaskSend = (if task st = Finished then 1 else 0)) \<and>
   (\<exists>st. run [CallSync, PutEnd None] (fst (Create ex_store ''k'' ex_world)) = Some st \<and>
         task st = PutReturned \<and>
         (\<exists>st'. run [TaskCloseRead, TaskSend] st = Some st' \<and> task st' = Finished \<and>
                errCh st' = [put_err st]))"
proof -
  obtain a where ra: "run [PutFail (TransportErr ''connection reset''), TaskCloseRead]
            (fst (Create ex_store ''k'' ex_world)) = Some a" and ta: "task a = Sending"
    by (simp add: eval_defs)
  obtain b where rb: "run [CallClose] (fst (Create ex_store ''k'' ex_world)) = Some b"
    by (simp add: eval_defs)
  obtain c where rc: "run [CallSync, PutEnd None] (fst (Create ex_store ''k'' ex_world)) = Some c"
    and tc: "task c = PutReturned"
    by (simp add: eval_defs)
  from errCh_one_send [OF ra] ta errCh_one_send [OF rb] errCh_one_send [OF rc] tc ra rb rc
  show ?thesis by blast
qed




text \<open>
  C9: in every state a handle can reach, the bytes the calls of \<open>Write\<close> have reported
  as written are exactly as many as \<open>PutObject\<close> has read (the pipe holds nothing, the
  producer is never ahead of the upload); what \<open>PutObject\<close> has read is a prefix of the
  bytes offered, in the order of the calls; while the pipe is open, and as long as no
  \<open>Write\<close> has returned an error, nothing offered is missing but the rest of the slice
  of the call in progress; and a call of \<open>Write\<close> that is blocked, with a slice of any
  length, can always return: by the reads of the upload, which then has read the whole
  slice, or by the close of the pipe.
\<close>

theorem Write_streams_in_order:
  assumes "run es (fst (Create s key w)) = Some st"
  shows "length (put_read st) = acked st \<and>
         prefix (put_read st) (offered es) \<and>
         (\<not> pipe_done (pipe st) \<longrightarrow> put_read st @ pending st = offered es) \<and>
         ((\<forall>r \<in> set (rets st). \<not> write_failed r) \<longrightarrow> put_read st @ pending st = offered es) \<and>
         (\<forall>b n once. caller st = InWrite b n once \<longrightarrow>
            (\<exists>st'. run (finish_write st) st = Some st' \<and> caller st' = Idle \<and>
               (\<not> pipe_done (pipe st) \<and> task st = InPut \<longrightarrow>
                  rets st' = rets st @ [WriteRet (n + length b) None] \<and>
                  put_read st' = put_read st @ b)))"
proof -
  from count_inv_reach [OF assms] have 1: "length (put_read st) = acked st"
    by (simp add: count_inv_def)
  from prefix_inv_reach [OF assms] have 2: "prefix (put_read st) (offered es)"
    and 3: "\<not> pipe_done (pipe st) \<longrightarrow> put_read st @ pending st = offered es"
    by (simp_all add: prefix_inv_def)
  from whole_inv_reach [OF assms]
  have 4: "(\<forall>r \<in> set (rets st). \<not> write_failed r) \<longrightarrow> put_read st @ pending st = offered es"
    by (simp add: whole_inv_def)
  from handle_inv_reach [OF assms] have p: "pipe_inv st" and u: "put_inv s key w st"
    by (simp_all add: handle_inv_def)
  have 5: "\<forall>b n once. caller st = InWrite b n once \<longrightarrow>
            (\<exists>st'. run (finish_write st) st = Some st' \<and> caller st' = Idle \<and>
               (\<not> pipe_done (pipe st) \<and> task st = InPut \<longrightarrow>
                  rets st' = rets st @ [WriteRet (n + length b) None] \<and>
                  put_read st' = put_read st @ b))"
    using finish_write_returns [OF p u] by blast
  from 1 2 3 4 5 show ?thesis by simp
qed

theorem Write_streams_in_order_witness:
  "\<exists>st. run [CallWrite [1, 2, 3], Transfer 2] (fst (Create ex_store ''k'' ex_world)) = Some st \<and>
        caller st = InWrite [3] 2 False \<and> \<not> pipe_done (pipe st) \<and> task st = InPut \<and>
        (\<forall>r \<in> set (rets st). \<not> write_failed r) \<and>
        length (put_read st) = acked st \<and>
        put_read st @ pending st = [1, 2, 3] \<and>
        (\<exists>st'. run (finish_write st) st = Some st' \<and> caller st' = Idle \<and>
           rets st' = rets st @ [WriteRet 3 None] \<and> put_read st' = put_read st @ [3])"
proof -
  obtain st where r: "run [CallWrite [1, 2, 3], Transfer 2] (fst (Create ex_store ''k'' ex_world)) = Some st"
    and c: "caller st = InWrite [3] 2 False" and d: "\<not> pipe_done (pipe st)" and t: "task st = InPut"
    and f: "\<forall>r \<in> set (rets st). \<not> write_failed r"
    by (simp add: eval_defs)
  have o: "offered [CallWrite [1, 2, 3], Transfer 2] = [1, 2, 3]" by (simp add: offered_def)
  from Write_streams_in_order [OF r] c d t f o r show ?thesis by auto
qed

end
